theory Spec2Isabelle
  imports Complex_Main
begin

section \<open>The driven, damped pendulum of 08\_Chaotic\_Pendulum\<close>

text \<open>
  The notebook computes with IEEE doubles. The embedding below reads every float as a
  real number and \<open>np.sin\<close>, \<open>\<pi>\<close> as the real sine and \<open>pi\<close>: rounding and overflow are
  outside the model. Arrays are lists updated by index, exceptions are values of
  \<open>error\<close>.
\<close>

datatype error = IndexError | ZeroDivisionError | ValueError

text \<open>\<open>scipy.constants.g\<close>, the standard acceleration of gravity.\<close>

definition g :: real where
  "g = 980665 / 100000"

subsection \<open>The integrator \<open>euler\<close>\<close>

type_synonym arrays = "real list \<times> real list"

text \<open>
  One pass through the body of the \<open>for\<close> loop at index \<open>n\<close>, on the pair of arrays
  \<open>(\<theta>, \<omega>)\<close>. The statements are kept in the order of the source: the velocity is
  stored first, the angle is computed from the stored velocity, and the two \<open>if\<close>
  statements follow one another (the second tests the value the first may have changed).
  \<open>g/\<ell>\<close> is a division of Python floats and raises when \<open>\<ell>\<close> is zero.
\<close>

definition euler_body ::
  "real list \<Rightarrow> real \<Rightarrow> real \<Rightarrow> real \<Rightarrow> real \<Rightarrow> real \<Rightarrow> nat \<Rightarrow> arrays \<Rightarrow> error + arrays" where
  "euler_body t FD l \<gamma> \<Omega>D \<Delta>t n s =
     (case s of (\<theta>, \<omega>) \<Rightarrow>
        if l = 0 then Inl ZeroDivisionError
        else
          let \<omega>1 = \<omega>[n + 1 := \<omega> ! n + (- (g / l) * sin (\<theta> ! n) - \<gamma> * \<omega> ! n + FD * sin (\<Omega>D * t ! n)) * \<Delta>t];
              \<theta>1 = \<theta>[n + 1 := \<theta> ! n + \<omega>1 ! (n + 1) * \<Delta>t];
              \<theta>2 = (if \<theta>1 ! (n + 1) < - pi then \<theta>1[n + 1 := \<theta>1 ! (n + 1) + 2 * pi] else \<theta>1);
              \<theta>3 = (if \<theta>2 ! (n + 1) \<ge> pi then \<theta>2[n + 1 := \<theta>2 ! (n + 1) - 2 * pi] else \<theta>2)
          in Inr (\<theta>3, \<omega>1))"

text \<open>The \<open>for\<close> loop over a list of indices; an exception ends it.\<close>

fun euler_loop :: "(nat \<Rightarrow> arrays \<Rightarrow> error + arrays) \<Rightarrow> nat list \<Rightarrow> arrays \<Rightarrow> error + arrays" where
  "euler_loop body [] s = Inr s"
| "euler_loop body (n # ns) s =
     (case body n s of Inl e \<Rightarrow> Inl e | Inr s' \<Rightarrow> euler_loop body ns s')"

text \<open>
  \<open>euler(t,FD,\<ell>,\<theta>0,\<omega>0,\<gamma>,\<Omega>D)\<close>. Reading \<open>t[1]\<close> raises on a grid of fewer than two
  points, before anything else is done. The loop indices are \<open>range(t.size-1)\<close>, so every
  read and write of the loop is inside the arrays.
\<close>

definition euler ::
  "real list \<Rightarrow> real \<Rightarrow> real \<Rightarrow> real \<Rightarrow> real \<Rightarrow> real \<Rightarrow> real \<Rightarrow> error + arrays" where
  "euler t FD l \<theta>0 \<omega>0 \<gamma> \<Omega>D =
     (if length t < 2 then Inl IndexError
      else
        let \<Delta>t = t ! 1 - t ! 0;
            \<omega> = replicate (length t) 0;
            \<theta> = replicate (length t) 0;
            \<theta>' = \<theta>[0 := \<theta>0];
            \<omega>' = \<omega>[0 := \<omega>0]
        in euler_loop (euler_body t FD l \<gamma> \<Omega>D \<Delta>t) [0..<length t - 1] (\<theta>', \<omega>'))"

text \<open>The value the two \<open>if\<close> statements leave in \<open>\<theta>[n+1]\<close>, as a function of the candidate.\<close>

definition wrap :: "real \<Rightarrow> real" where
  "wrap x = (let y = (if x < - pi then x + 2 * pi else x) in if y \<ge> pi then y - 2 * pi else y)"

text \<open>
  What one pass of the loop establishes between the entries \<open>n\<close> and \<open>n+1\<close> of the returned
  arrays: the new velocity from the old angle, then the new angle from the new velocity.
\<close>

definition step_ok :: "real list \<Rightarrow> real \<Rightarrow> real \<Rightarrow> real \<Rightarrow> real \<Rightarrow> real \<Rightarrow> real list \<Rightarrow> real list \<Rightarrow> nat \<Rightarrow> bool" where
  "step_ok t FD l \<gamma> \<Omega>D \<Delta>t \<theta> \<omega> n \<longleftrightarrow>
     \<omega> ! (n + 1) = \<omega> ! n + \<Delta>t * (- (g / l) * sin (\<theta> ! n) - \<gamma> * \<omega> ! n + FD * sin (\<Omega>D * t ! n)) \<and>
     \<theta> ! (n + 1) = wrap (\<theta> ! n + \<Delta>t * \<omega> ! (n + 1))"

subsection \<open>The stroboscopic indices \<open>inPhase\<close>\<close>

text \<open>
  \<open>int(x)\<close> of a float truncates toward zero.
\<close>

definition py_int :: "real \<Rightarrow> int" where
  "py_int x = (if 0 \<le> x then \<lfloor>x\<rfloor> else \<lceil>x\<rceil>)"

text \<open>
  The index computed in one pass of the \<open>while\<close> loop,
  \<open>m = int(2.0*\<pi>*n/(longt[1]*\<Omega>D) + 0.5)\<close>. The divisor is the product of the grid's
  second entry \<open>longt[1]\<close> and the driving frequency.
\<close>

definition strobe_m :: "real list \<Rightarrow> real \<Rightarrow> nat \<Rightarrow> int" where
  "strobe_m t \<Omega>D n = py_int (2 * pi * real n / (t ! 1 * \<Omega>D) + 1 / 2)"

text \<open>
  The \<open>while True\<close> loop, with the counter \<open>n\<close> and the list built so far. The loop has no
  bound of its own, so the model counts passes: \<open>None\<close> is a run that has not left the
  loop after \<open>fuel\<close> passes, \<open>Some (Inl e)\<close> a raised exception, \<open>Some (Inr ms)\<close> the list at
  the \<open>break\<close>. Reading \<open>longt[1]\<close> raises on a grid of fewer than two points. When the
  divisor is zero the first pass (\<open>n = 0\<close>) raises: for the numpy scalar \<open>longt[1]\<close> the
  quotient \<open>0.0/0.0\<close> is NaN and \<open>int\<close> refuses it with a ValueError (on plain Python
  floats the division itself raises ZeroDivisionError, at the same place). A run from
  \<open>n = 0\<close> never meets a zero divisor at a later pass.
\<close>

fun inPhase_loop :: "nat \<Rightarrow> real list \<Rightarrow> real \<Rightarrow> nat \<Rightarrow> int list \<Rightarrow> (error + int list) option" where
  "inPhase_loop 0 t \<Omega>D n acc = None"
| "inPhase_loop (Suc fuel) t \<Omega>D n acc =
     (if length t < 2 then Some (Inl IndexError)
      else if t ! 1 * \<Omega>D = 0 then Some (Inl ValueError)
      else
        let m = strobe_m t \<Omega>D n in
        if m > 1 \<and> m < int (length t) then inPhase_loop fuel t \<Omega>D (n + 1) (acc @ [m])
        else if m \<ge> int (length t) then Some (Inr acc)
        else inPhase_loop fuel t \<Omega>D (n + 1) acc)"

definition inPhase :: "nat \<Rightarrow> real list \<Rightarrow> real \<Rightarrow> (error + int list) option" where
  "inPhase fuel t \<Omega>D = inPhase_loop fuel t \<Omega>D 0 []"

text \<open>
  The index as the specification words it, to compare with \<open>strobe_m\<close>: the divisor is
  the grid spacing \<open>t[1] - t[0]\<close> times the driving frequency, and the rounding is
  \<open>floor(x + 0.5)\<close>.
\<close>

definition spec_strobe_m :: "real list \<Rightarrow> real \<Rightarrow> nat \<Rightarrow> int" where
  "spec_strobe_m t \<Omega>D n = \<lfloor>2 * pi * real n / ((t ! 1 - t ! 0) * \<Omega>D) + 1 / 2\<rfloor>"

section \<open>Properties of the integrator\<close>

lemma euler_body_closed:
  assumes "l \<noteq> 0" "n + 1 < length \<theta>" "n + 1 < length \<omega>"
  shows "euler_body t FD l \<gamma> \<Omega>D \<Delta>t n (\<theta>, \<omega>) =
     Inr (\<theta>[n + 1 := wrap (\<theta> ! n + (\<omega> ! n + (- (g / l) * sin (\<theta> ! n) - \<gamma> * \<omega> ! n + FD * sin (\<Omega>D * t ! n)) * \<Delta>t) * \<Delta>t)],
          \<omega>[n + 1 := \<omega> ! n + (- (g / l) * sin (\<theta> ! n) - \<gamma> * \<omega> ! n + FD * sin (\<Omega>D * t ! n)) * \<Delta>t])"
  using assms by (simp add: euler_body_def wrap_def Let_def)

lemma euler_loop_append:
  "euler_loop body (xs @ ys) s =
     (case euler_loop body xs s of Inl e \<Rightarrow> Inl e | Inr s' \<Rightarrow> euler_loop body ys s')"
  by (induction xs arbitrary: s) (auto split: sum.splits)

lemma wrap_range:
  assumes "- pi \<le> x" "x < pi" "\<bar>d\<bar> < 2 * pi"
  shows "- pi \<le> wrap (x + d) \<and> wrap (x + d) < pi"
  using assms by (auto simp: wrap_def Let_def)

lemma euler_loop_prefix:
  assumes "l \<noteq> 0" "length \<theta> = N" "length \<omega> = N"
  shows "k + 1 \<le> N \<Longrightarrow>
    \<exists>\<theta>' \<omega>'. euler_loop (euler_body t FD l \<gamma> \<Omega>D \<Delta>t) [0..<k] (\<theta>, \<omega>) = Inr (\<theta>', \<omega>') \<and>
      length \<theta>' = N \<and> length \<omega>' = N \<and>
      (\<forall>i. i = 0 \<or> k < i \<longrightarrow> \<theta>' ! i = \<theta> ! i \<and> \<omega>' ! i = \<omega> ! i) \<and>
      (\<forall>n<k. step_ok t FD l \<gamma> \<Omega>D \<Delta>t \<theta>' \<omega>' n)"
proof (induction k)
  case 0
  then show ?case using assms by simp
next
  case (Suc k)
  then have "k + 1 \<le> N" by simp
  from Suc.IH[OF this] obtain \<theta>' \<omega>' where
    run: "euler_loop (euler_body t FD l \<gamma> \<Omega>D \<Delta>t) [0..<k] (\<theta>, \<omega>) = Inr (\<theta>', \<omega>')"
    and len: "length \<theta>' = N" "length \<omega>' = N"
    and frame: "\<forall>i. i = 0 \<or> k < i \<longrightarrow> \<theta>' ! i = \<theta> ! i \<and> \<omega>' ! i = \<omega> ! i"
    and rec: "\<forall>n<k. step_ok t FD l \<gamma> \<Omega>D \<Delta>t \<theta>' \<omega>' n"
    by blast
  define w where "w = \<omega>' ! k + (- (g / l) * sin (\<theta>' ! k) - \<gamma> * \<omega>' ! k + FD * sin (\<Omega>D * t ! k)) * \<Delta>t"
  define \<theta>'' where "\<theta>'' = \<theta>'[k + 1 := wrap (\<theta>' ! k + w * \<Delta>t)]"
  define \<omega>'' where "\<omega>'' = \<omega>'[k + 1 := w]"
  have inb: "k + 1 < N" using Suc.prems by simp
  have body: "euler_body t FD l \<gamma> \<Omega>D \<Delta>t k (\<theta>', \<omega>') = Inr (\<theta>'', \<omega>'')"
    using euler_body_closed[OF assms(1), of k \<theta>' \<omega>' t FD \<gamma> \<Omega>D \<Delta>t] inb len
    by (simp add: \<theta>''_def \<omega>''_def w_def)
  have run': "euler_loop (euler_body t FD l \<gamma> \<Omega>D \<Delta>t) [0..<Suc k] (\<theta>, \<omega>) = Inr (\<theta>'', \<omega>'')"
    by (simp add: euler_loop_append run body)
  have len': "length \<theta>'' = N" "length \<omega>'' = N"
    using len by (simp_all add: \<theta>''_def \<omega>''_def)
  have frame': "\<forall>i. i = 0 \<or> Suc k < i \<longrightarrow> \<theta>'' ! i = \<theta> ! i \<and> \<omega>'' ! i = \<omega> ! i"
    using frame by (auto simp: \<theta>''_def \<omega>''_def)
  have old: "step_ok t FD l \<gamma> \<Omega>D \<Delta>t \<theta>'' \<omega>'' n" if "n < k" for n
    using rec that by (simp add: step_ok_def \<theta>''_def \<omega>''_def)
  have new: "step_ok t FD l \<gamma> \<Omega>D \<Delta>t \<theta>'' \<omega>'' k"
    using inb len by (simp add: step_ok_def \<theta>''_def \<omega>''_def w_def mult.commute)
  have "\<forall>n<Suc k. step_ok t FD l \<gamma> \<Omega>D \<Delta>t \<theta>'' \<omega>'' n"
    using old new by (auto simp: less_Suc_eq)
  with run' len' frame' show ?case by blast
qed

lemma euler_Inr_D:
  assumes "euler t FD l \<theta>0 \<omega>0 \<gamma> \<Omega>D = Inr s"
  shows "2 \<le> length t \<and> l \<noteq> 0"
proof -
  have len: "2 \<le> length t"
    using assms by (auto simp: euler_def split: if_splits)
  then have "[0..<length t - 1] = 0 # [1..<length t - 1]"
    by (simp add: upt_conv_Cons)
  then have "l \<noteq> 0"
    using assms len by (auto simp: euler_def euler_body_def Let_def split: if_splits)
  with len show ?thesis by simp
qed

lemma euler_run:
  assumes "2 \<le> length t" "l \<noteq> 0"
  shows "\<exists>\<theta> \<omega>. euler t FD l \<theta>0 \<omega>0 \<gamma> \<Omega>D = Inr (\<theta>, \<omega>) \<and>
      length \<theta> = length t \<and> length \<omega> = length t \<and> \<theta> ! 0 = \<theta>0 \<and> \<omega> ! 0 = \<omega>0 \<and>
      (\<forall>n<length t - 1. step_ok t FD l \<gamma> \<Omega>D (t ! 1 - t ! 0) \<theta> \<omega> n)"
proof -
  define N where "N = length t"
  define \<theta>i where "\<theta>i = (replicate N (0::real))[0 := \<theta>0]"
  define \<omega>i where "\<omega>i = (replicate N (0::real))[0 := \<omega>0]"
  have li: "length \<theta>i = N" "length \<omega>i = N"
    by (simp_all add: \<theta>i_def \<omega>i_def)
  have "N - 1 + 1 \<le> N" using assms(1) by (simp add: N_def)
  from euler_loop_prefix[OF assms(2) li this, of t FD \<gamma> \<Omega>D "t ! 1 - t ! 0"]
  obtain \<theta> \<omega> where
    run: "euler_loop (euler_body t FD l \<gamma> \<Omega>D (t ! 1 - t ! 0)) [0..<N - 1] (\<theta>i, \<omega>i) = Inr (\<theta>, \<omega>)"
    and len: "length \<theta> = N" "length \<omega> = N"
    and frame: "\<forall>i. i = 0 \<or> N - 1 < i \<longrightarrow> \<theta> ! i = \<theta>i ! i \<and> \<omega> ! i = \<omega>i ! i"
    and rec: "\<forall>n<N - 1. step_ok t FD l \<gamma> \<Omega>D (t ! 1 - t ! 0) \<theta> \<omega> n"
    by blast
  have "0 < N" using assms(1) by (auto simp: N_def)
  then have init: "\<theta> ! 0 = \<theta>0" "\<omega> ! 0 = \<omega>0"
    using frame by (simp_all add: \<theta>i_def \<omega>i_def)
  have "euler t FD l \<theta>0 \<omega>0 \<gamma> \<Omega>D = Inr (\<theta>, \<omega>)"
    using assms(1) run by (simp add: euler_def Let_def N_def \<theta>i_def \<omega>i_def)
  with len init rec show ?thesis unfolding N_def by blast
qed

text \<open>Two runs on the grid \<open>[0, 1]\<close>: at rest, and one step that leaves \<open>[-\<pi>, \<pi>)\<close> downwards.\<close>

lemma euler_zero_run: "euler [0, 1] 0 1 0 0 0 0 = Inr ([0, 0], [0, 0])"
  by (simp add: euler_def euler_body_def Let_def not_le)

lemma euler_wrapping_run: "euler [0, 1] 0 1 (- pi) (- 1) 0 0 = Inr ([- pi, pi - 1], [- 1, - 1])"
  by (simp add: euler_def euler_body_def Let_def not_le)

lemma euler_loop_cong:
  "(\<And>n s. n \<in> set ns \<Longrightarrow> body n s = body' n s) \<Longrightarrow> euler_loop body ns s = euler_loop body' ns s"
  by (induction ns arbitrary: s) (auto split: sum.splits)

lemma euler_short_grid: "length t < 2 \<Longrightarrow> euler t FD l \<theta>0 \<omega>0 \<gamma> \<Omega>D = Inl IndexError"
  by (simp add: euler_def)

lemma euler_zero_length:
  assumes "2 \<le> length t"
  shows "euler t FD 0 \<theta>0 \<omega>0 \<gamma> \<Omega>D = Inl ZeroDivisionError"
proof -
  have "[0..<length t - 1] = 0 # [1..<length t - 1]"
    using assms by (simp add: upt_conv_Cons)
  then show ?thesis
    using assms by (simp add: euler_def euler_body_def Let_def)
qed

lemma euler_body_drive_cong:
  assumes "FD * sin (\<Omega>D * t' ! n) = FD * sin (\<Omega>D * t ! n)"
  shows "euler_body t' FD l \<gamma> \<Omega>D \<Delta>t n s = euler_body t FD l \<gamma> \<Omega>D \<Delta>t n s"
  by (simp only: euler_body_def assms)

lemma euler_grid_cong:
  assumes "length t' = length t" "t' ! 1 - t' ! 0 = t ! 1 - t ! 0"
    and "\<forall>n. n + 1 < length t \<longrightarrow> FD * sin (\<Omega>D * t' ! n) = FD * sin (\<Omega>D * t ! n)"
  shows "euler t' FD l \<theta>0 \<omega>0 \<gamma> \<Omega>D = euler t FD l \<theta>0 \<omega>0 \<gamma> \<Omega>D"
proof -
  have "euler_loop (euler_body t' FD l \<gamma> \<Omega>D \<Delta>t) [0..<length t - 1] s =
        euler_loop (euler_body t FD l \<gamma> \<Omega>D \<Delta>t) [0..<length t - 1] s" for \<Delta>t s
  proof (rule euler_loop_cong)
    fix n s' assume "n \<in> set [0..<length t - 1]"
    then have "n + 1 < length t" by auto
    with assms(3) show "euler_body t' FD l \<gamma> \<Omega>D \<Delta>t n s' = euler_body t FD l \<gamma> \<Omega>D \<Delta>t n s'"
      by (simp add: euler_body_drive_cong)
  qed
  then show ?thesis
    using assms(1,2) by (simp add: euler_def)
qed

lemma angles_in_range:
  assumes "\<forall>n<length t - 1. step_ok t FD l \<gamma> \<Omega>D \<Delta>t \<theta> \<omega> n"
    and "- pi \<le> \<theta> ! 0" "\<theta> ! 0 < pi"
    and "\<forall>n. n + 1 < length t \<longrightarrow> \<bar>\<Delta>t * \<omega> ! (n + 1)\<bar> < 2 * pi"
  shows "n < length t \<Longrightarrow> - pi \<le> \<theta> ! n \<and> \<theta> ! n < pi"
proof (induction n)
  case 0
  then show ?case using assms(2,3) by simp
next
  case (Suc n)
  then have in_range: "- pi \<le> \<theta> ! n" "\<theta> ! n < pi" and lt: "n + 1 < length t"
    by simp_all
  from lt assms(1) have "step_ok t FD l \<gamma> \<Omega>D \<Delta>t \<theta> \<omega> n"
    by (simp add: less_diff_conv)
  then have eq: "\<theta> ! Suc n = wrap (\<theta> ! n + \<Delta>t * \<omega> ! (n + 1))"
    by (simp add: step_ok_def)
  from lt assms(4) have "\<bar>\<Delta>t * \<omega> ! (n + 1)\<bar> < 2 * pi" by blast
  from wrap_range[OF in_range this] eq show ?case by simp
qed

subsection \<open>The recurrence\<close>

text \<open>
  Claim C1. On a uniformly spaced grid of at least two points (and a pendulum length that
  can be divided by), \<open>euler\<close> returns two arrays as long as the grid, beginning with
  \<open>\<theta>0\<close> and \<open>\<omega>0\<close>; at every step the velocity is advanced from the old angle, and the
  angle is the wrapped value of the old angle advanced by the velocity just computed.
\<close>

theorem euler_recurrence:
  assumes "2 \<le> length t"
    and "\<forall>n. n + 1 < length t \<longrightarrow> t ! (n + 1) - t ! n = t ! 1 - t ! 0"
    and "l \<noteq> 0"
  shows "\<exists>\<theta> \<omega>. euler t FD l \<theta>0 \<omega>0 \<gamma> \<Omega>D = Inr (\<theta>, \<omega>) \<and>
      length \<theta> = length t \<and> length \<omega> = length t \<and> \<theta> ! 0 = \<theta>0 \<and> \<omega> ! 0 = \<omega>0 \<and>
      (\<forall>n. n + 1 < length t \<longrightarrow>
         \<omega> ! (n + 1) = \<omega> ! n + (t ! 1 - t ! 0) * (- (g / l) * sin (\<theta> ! n) - \<gamma> * \<omega> ! n + FD * sin (\<Omega>D * t ! n)) \<and>
         \<theta> ! (n + 1) = wrap (\<theta> ! n + (t ! 1 - t ! 0) * \<omega> ! (n + 1)))"
proof -
  from euler_run[OF assms(1) assms(3), of FD \<theta>0 \<omega>0 \<gamma> \<Omega>D]
  obtain \<theta> \<omega> where r: "euler t FD l \<theta>0 \<omega>0 \<gamma> \<Omega>D = Inr (\<theta>, \<omega>)"
    "length \<theta> = length t" "length \<omega> = length t" "\<theta> ! 0 = \<theta>0" "\<omega> ! 0 = \<omega>0"
    "\<forall>n<length t - 1. step_ok t FD l \<gamma> \<Omega>D (t ! 1 - t ! 0) \<theta> \<omega> n"
    by blast
  have "\<forall>n. n + 1 < length t \<longrightarrow>
         \<omega> ! (n + 1) = \<omega> ! n + (t ! 1 - t ! 0) * (- (g / l) * sin (\<theta> ! n) - \<gamma> * \<omega> ! n + FD * sin (\<Omega>D * t ! n)) \<and>
         \<theta> ! (n + 1) = wrap (\<theta> ! n + (t ! 1 - t ! 0) * \<omega> ! (n + 1))"
    using r(6) by (simp add: step_ok_def less_diff_conv)
  with r(1-5) show ?thesis by blast
qed

theorem euler_recurrence_witness:
  "2 \<le> length [0, 1, 2 :: real] \<and>
   [0, 1, 2 :: real] ! 1 - [0, 1, 2] ! 0 = 1 \<and> [0, 1, 2 :: real] ! 2 - [0, 1, 2] ! 1 = 1 \<and>
   (1 :: real) \<noteq> 0 \<and>
   (\<exists>\<theta> \<omega>. euler [0, 1, 2] 0 1 0 0 0 0 = Inr (\<theta>, \<omega>) \<and> length \<theta> = 3 \<and> length \<omega> = 3 \<and>
      \<theta> ! 0 = 0 \<and> \<omega> ! 0 = 0 \<and>
      \<omega> ! 1 = \<omega> ! 0 + 1 * (- (g / 1) * sin (\<theta> ! 0) - 0 * \<omega> ! 0 + 0 * sin (0 * 0)) \<and>
      \<theta> ! 1 = wrap (\<theta> ! 0 + 1 * \<omega> ! 1))"
proof -
  have u: "\<forall>n. n + 1 < length [0, 1, 2 :: real] \<longrightarrow> [0, 1, 2 :: real] ! (n + 1) - [0, 1, 2] ! n = [0, 1, 2] ! 1 - [0, 1, 2] ! 0"
    by (auto simp: less_Suc_eq numeral_3_eq_3)
  have n: "(1::real) \<noteq> 0" by simp
  have l: "2 \<le> length [0, 1, 2 :: real]" by simp
  from euler_recurrence[OF l u n, of 0 0 0 0 0]
  obtain \<theta> \<omega> where r: "euler [0, 1, 2] 0 1 0 0 0 0 = Inr (\<theta>, \<omega>)" "length \<theta> = 3" "length \<omega> = 3"
      "\<theta> ! 0 = 0" "\<omega> ! 0 = 0"
      "\<forall>n. n + 1 < length [0, 1, 2 :: real] \<longrightarrow>
         \<omega> ! (n + 1) = \<omega> ! n + ([0, 1, 2] ! 1 - [0, 1, 2] ! 0) * (- (g / 1) * sin (\<theta> ! n) - 0 * \<omega> ! n + 0 * sin (0 * [0, 1, 2] ! n)) \<and>
         \<theta> ! (n + 1) = wrap (\<theta> ! n + ([0, 1, 2] ! 1 - [0, 1, 2] ! 0) * \<omega> ! (n + 1))"
    by auto
  from r(6) have "\<omega> ! 1 = \<omega> ! 0 + 1 * (- (g / 1) * sin (\<theta> ! 0) - 0 * \<omega> ! 0 + 0 * sin (0 * 0)) \<and>
      \<theta> ! 1 = wrap (\<theta> ! 0 + 1 * \<omega> ! 1)"
    by (auto dest: spec[of _ 0])
  with r(1-5) show ?thesis by auto
qed

subsection \<open>The one-shot wrap\<close>

text \<open>
  Claim C8. When the angle at step \<open>n\<close> lies in \<open>[-\<pi>, \<pi>)\<close> and the advance
  \<open>\<Delta>t\<cdot>\<omega>[n+1]\<close> is smaller than \<open>2\<pi>\<close> in absolute value, the two conditionals leave the
  angle at step \<open>n+1\<close> in \<open>[-\<pi>, \<pi>)\<close> again.
\<close>

theorem wrap_restores_range:
  assumes "euler t FD l \<theta>0 \<omega>0 \<gamma> \<Omega>D = Inr (\<theta>, \<omega>)"
    and "n + 1 < length t"
    and "- pi \<le> \<theta> ! n" and "\<theta> ! n < pi"
    and "\<bar>(t ! 1 - t ! 0) * \<omega> ! (n + 1)\<bar> < 2 * pi"
  shows "\<theta> ! (n + 1) = wrap (\<theta> ! n + (t ! 1 - t ! 0) * \<omega> ! (n + 1)) \<and>
         - pi \<le> \<theta> ! (n + 1) \<and> \<theta> ! (n + 1) < pi"
proof -
  from euler_Inr_D[OF assms(1)] have "2 \<le> length t" "l \<noteq> 0" by simp_all
  from euler_run[OF this, of FD \<theta>0 \<omega>0 \<gamma> \<Omega>D] assms(1)
  have "\<forall>n<length t - 1. step_ok t FD l \<gamma> \<Omega>D (t ! 1 - t ! 0) \<theta> \<omega> n" by auto
  with assms(2) have "\<theta> ! (n + 1) = wrap (\<theta> ! n + (t ! 1 - t ! 0) * \<omega> ! (n + 1))"
    by (simp add: step_ok_def less_diff_conv)
  with wrap_range[OF assms(3,4,5)] show ?thesis by simp
qed

theorem wrap_restores_range_witness:
  "euler [0, 1] 0 1 (- pi) (- 1) 0 0 = Inr ([- pi, pi - 1], [- 1, - 1]) \<and>
   (0::nat) + 1 < length [0, 1 :: real] \<and>
   - pi \<le> [- pi, pi - 1] ! 0 \<and> [- pi, pi - 1] ! 0 < pi \<and>
   \<bar>([0, 1] ! 1 - [0, 1] ! 0) * [- 1, - 1 :: real] ! (0 + 1)\<bar> < 2 * pi \<and>
   [- pi, pi - 1] ! (0 + 1) = wrap ([- pi, pi - 1] ! 0 + ([0, 1] ! 1 - [0, 1] ! 0) * [- 1, - 1 :: real] ! (0 + 1)) \<and>
   - pi \<le> [- pi, pi - 1] ! (0 + 1) \<and> [- pi, pi - 1] ! (0 + 1) < pi"
proof -
  have a: "(0::nat) + 1 < length [0, 1 :: real]" by simp
  have b: "- pi \<le> [- pi, pi - 1] ! 0" by simp
  have c: "[- pi, pi - 1] ! 0 < pi" by simp
  have "1 < 2 * pi" using pi_ge_two by simp
  then have d: "\<bar>([0, 1] ! 1 - [0, 1] ! 0) * [- 1, - 1 :: real] ! (0 + 1)\<bar> < 2 * pi" by simp
  from wrap_restores_range[OF euler_wrapping_run a b c d] euler_wrapping_run a b c d
  show ?thesis by blast
qed

subsection \<open>The range of the angles\<close>

text \<open>
  Claim C2 says that every returned angle lies in \<open>[-\<pi>, \<pi>)\<close>, the first one included,
  whatever the initial angle. The first entry is the initial angle as given, and one pair
  of conditionals removes one turn only: an initial angle of \<open>2\<pi>\<close> stays in the array, and
  from rest at angle \<open>0\<close> with velocity \<open>3\<pi>\<close> the second angle is \<open>\<pi>\<close>.
\<close>

theorem euler_angles_counterexample:
  "euler [0, 1] 0 1 (2 * pi) 0 0 0 = Inr ([2 * pi, 0], [0, 0]) \<and> \<not> [2 * pi, 0] ! 0 < pi \<and>
   euler [0, 1] 0 1 0 (3 * pi) 0 0 = Inr ([0, pi], [3 * pi, 3 * pi]) \<and> \<not> [0, pi] ! 1 < pi"
  by (simp add: euler_def euler_body_def Let_def not_le)

text \<open>
  Claim C2, amended. When the initial angle lies in \<open>[-\<pi>, \<pi>)\<close> and every advance
  \<open>\<Delta>t\<cdot>\<omega>[n+1]\<close> of the run is smaller than \<open>2\<pi>\<close> in absolute value, every returned angle
  lies in \<open>[-\<pi>, \<pi>)\<close>.
\<close>

theorem euler_angles_in_range:
  assumes "euler t FD l \<theta>0 \<omega>0 \<gamma> \<Omega>D = Inr (\<theta>, \<omega>)"
    and "- pi \<le> \<theta>0" and "\<theta>0 < pi"
    and "\<forall>n. n + 1 < length t \<longrightarrow> \<bar>(t ! 1 - t ! 0) * \<omega> ! (n + 1)\<bar> < 2 * pi"
  shows "length \<theta> = length t \<and> (\<forall>n<length t. - pi \<le> \<theta> ! n \<and> \<theta> ! n < pi)"
proof -
  from euler_Inr_D[OF assms(1)] have "2 \<le> length t" "l \<noteq> 0" by simp_all
  from euler_run[OF this, of FD \<theta>0 \<omega>0 \<gamma> \<Omega>D] assms(1)
  have r: "length \<theta> = length t" "\<theta> ! 0 = \<theta>0"
    "\<forall>n<length t - 1. step_ok t FD l \<gamma> \<Omega>D (t ! 1 - t ! 0) \<theta> \<omega> n" by auto
  from angles_in_range[OF r(3) _ _ assms(4)] r(2) assms(2,3)
  have "\<forall>n<length t. - pi \<le> \<theta> ! n \<and> \<theta> ! n < pi" by simp
  with r(1) show ?thesis by simp
qed

theorem euler_angles_in_range_witness:
  "euler [0, 1] 0 1 (- pi) (- 1) 0 0 = Inr ([- pi, pi - 1], [- 1, - 1]) \<and>
   - pi \<le> - pi \<and> - pi < pi \<and>
   \<bar>([0, 1] ! 1 - [0, 1] ! 0) * [- 1, - 1 :: real] ! 1\<bar> < 2 * pi \<and>
   - pi \<le> [- pi, pi - 1] ! 0 \<and> [- pi, pi - 1] ! 0 < pi \<and>
   - pi \<le> [- pi, pi - 1] ! 1 \<and> [- pi, pi - 1] ! 1 < pi"
proof -
  have a: "- pi \<le> - pi" by simp
  have b: "- pi < pi" by simp
  have "1 < 2 * pi" using pi_ge_two by simp
  then have d: "\<bar>([0, 1] ! 1 - [0, 1] ! 0) * [- 1, - 1 :: real] ! 1\<bar> < 2 * pi" by simp
  then have c: "\<forall>n. n + 1 < length [0, 1 :: real] \<longrightarrow>
      \<bar>([0, 1] ! 1 - [0, 1] ! 0) * [- 1, - 1 :: real] ! (n + 1)\<bar> < 2 * pi" by simp
  from euler_angles_in_range[OF euler_wrapping_run a b c]
  have "- pi \<le> [- pi, pi - 1] ! 0 \<and> [- pi, pi - 1] ! 0 < pi \<and>
        - pi \<le> [- pi, pi - 1] ! 1 \<and> [- pi, pi - 1] ! 1 < pi"
    by (simp add: less_Suc_eq numeral_2_eq_2)
  with euler_wrapping_run a b d show ?thesis by blast
qed

subsection \<open>Degenerate grids\<close>

text \<open>
  Claim C7 says that a grid with fewer than two points or with a spacing that is not
  positive is refused. The spacing is never tested: with spacing \<open>0\<close> and with spacing
  \<open>-1\<close> a trajectory is returned.
\<close>

theorem euler_degenerate_counterexample:
  "euler [0, 0] 0 1 0 0 0 0 = Inr ([0, 0], [0, 0]) \<and>
   [0, 0 :: real] ! 1 - [0, 0] ! 0 = 0 \<and>
   euler [1, 0] 0 1 0 1 0 0 = Inr ([0, - 1], [1, 1]) \<and>
   [1, 0 :: real] ! 1 - [1, 0] ! 0 = - 1"
proof -
  have "\<not> pi < 1" using pi_ge_two by simp
  then show ?thesis
    by (simp add: euler_def euler_body_def Let_def not_le)
qed

text \<open>
  Claim C7, amended. A grid of fewer than two points makes \<open>euler\<close> fail with the
  IndexError of reading \<open>t[1]\<close>; a grid of at least two points is accepted whatever its
  spacing, and (for a pendulum length other than zero) a trajectory as long as the grid
  is returned, beginning with the initial conditions and computed step by step with
  that spacing \<open>t[1] - t[0]\<close>, zero or negative as it may be.
\<close>

theorem euler_grid_check:
  "(length t < 2 \<longrightarrow> euler t FD l \<theta>0 \<omega>0 \<gamma> \<Omega>D = Inl IndexError) \<and>
   (2 \<le> length t \<and> l \<noteq> 0 \<longrightarrow>
      (\<exists>\<theta> \<omega>. euler t FD l \<theta>0 \<omega>0 \<gamma> \<Omega>D = Inr (\<theta>, \<omega>) \<and>
         length \<theta> = length t \<and> length \<omega> = length t \<and> \<theta> ! 0 = \<theta>0 \<and> \<omega> ! 0 = \<omega>0 \<and>
         (\<forall>n. n + 1 < length t \<longrightarrow>
            \<omega> ! (n + 1) = \<omega> ! n + (t ! 1 - t ! 0) * (- (g / l) * sin (\<theta> ! n) - \<gamma> * \<omega> ! n + FD * sin (\<Omega>D * t ! n)) \<and>
            \<theta> ! (n + 1) = wrap (\<theta> ! n + (t ! 1 - t ! 0) * \<omega> ! (n + 1)))))"
proof (intro conjI impI)
  assume "length t < 2"
  then show "euler t FD l \<theta>0 \<omega>0 \<gamma> \<Omega>D = Inl IndexError"
    by (rule euler_short_grid)
next
  assume "2 \<le> length t \<and> l \<noteq> 0"
  then have "2 \<le> length t" "l \<noteq> 0" by simp_all
  from euler_run[OF this, of FD \<theta>0 \<omega>0 \<gamma> \<Omega>D]
  obtain \<theta> \<omega> where r: "euler t FD l \<theta>0 \<omega>0 \<gamma> \<Omega>D = Inr (\<theta>, \<omega>)"
    "length \<theta> = length t" "length \<omega> = length t" "\<theta> ! 0 = \<theta>0" "\<omega> ! 0 = \<omega>0"
    "\<forall>n<length t - 1. step_ok t FD l \<gamma> \<Omega>D (t ! 1 - t ! 0) \<theta> \<omega> n"
    by blast
  have "\<forall>n. n + 1 < length t \<longrightarrow>
         \<omega> ! (n + 1) = \<omega> ! n + (t ! 1 - t ! 0) * (- (g / l) * sin (\<theta> ! n) - \<gamma> * \<omega> ! n + FD * sin (\<Omega>D * t ! n)) \<and>
         \<theta> ! (n + 1) = wrap (\<theta> ! n + (t ! 1 - t ! 0) * \<omega> ! (n + 1))"
    using r(6) by (simp add: step_ok_def less_diff_conv)
  with r(1-5) show "\<exists>\<theta> \<omega>. euler t FD l \<theta>0 \<omega>0 \<gamma> \<Omega>D = Inr (\<theta>, \<omega>) \<and>
         length \<theta> = length t \<and> length \<omega> = length t \<and> \<theta> ! 0 = \<theta>0 \<and> \<omega> ! 0 = \<omega>0 \<and>
         (\<forall>n. n + 1 < length t \<longrightarrow>
            \<omega> ! (n + 1) = \<omega> ! n + (t ! 1 - t ! 0) * (- (g / l) * sin (\<theta> ! n) - \<gamma> * \<omega> ! n + FD * sin (\<Omega>D * t ! n)) \<and>
            \<theta> ! (n + 1) = wrap (\<theta> ! n + (t ! 1 - t ! 0) * \<omega> ! (n + 1)))"
    by blast
qed

theorem euler_grid_check_witness:
  "length [0 :: real] < 2 \<and> euler [0] 0 1 0 1 0 0 = Inl IndexError \<and>
   2 \<le> length [1, 0 :: real] \<and> (1 :: real) \<noteq> 0 \<and> [1, 0 :: real] ! 1 - [1, 0] ! 0 = - 1 \<and>
   (\<exists>\<theta> \<omega>. euler [1, 0] 0 1 0 1 0 0 = Inr (\<theta>, \<omega>) \<and>
      length \<theta> = 2 \<and> length \<omega> = 2 \<and> \<theta> ! 0 = 0 \<and> \<omega> ! 0 = 1 \<and> \<omega> ! 1 = 1 \<and> \<theta> ! 1 = - 1)"
proof -
  have short: "length [0 :: real] < 2" by simp
  have long: "2 \<le> length [1, 0 :: real] \<and> (1 :: real) \<noteq> 0" by simp
  have gap: "[1, 0 :: real] ! 1 - [1, 0] ! 0 = - 1" by simp
  have w: "wrap (- 1) = - 1"
  proof -
    have "\<not> pi < 1" "\<not> pi \<le> - 1" using pi_ge_two by simp_all
    then show ?thesis by (simp add: wrap_def)
  qed
  from euler_grid_check[of "[0]" 0 1 0 1 0 0, THEN conjunct1, rule_format, OF short]
  have e: "euler [0] 0 1 0 1 0 0 = Inl IndexError" .
  from euler_grid_check[of "[1, 0]" 0 1 0 1 0 0, THEN conjunct2, rule_format, OF long]
  obtain \<theta> \<omega> where r: "euler [1, 0] 0 1 0 1 0 0 = Inr (\<theta>, \<omega>)"
    "length \<theta> = length [1, 0 :: real]" "length \<omega> = length [1, 0 :: real]" "\<theta> ! 0 = 0" "\<omega> ! 0 = 1"
    "\<forall>n. n + 1 < length [1, 0 :: real] \<longrightarrow>
       \<omega> ! (n + 1) = \<omega> ! n + ([1, 0] ! 1 - [1, 0] ! 0) * (- (g / 1) * sin (\<theta> ! n) - 0 * \<omega> ! n + 0 * sin (0 * [1, 0] ! n)) \<and>
       \<theta> ! (n + 1) = wrap (\<theta> ! n + ([1, 0] ! 1 - [1, 0] ! 0) * \<omega> ! (n + 1))"
    by blast
  from r(6)[rule_format, of 0] r(4,5) have s: "\<omega> ! 1 = 1" "\<theta> ! 1 = wrap (- 1)"
    by simp_all
  from r(2,3) have len: "length \<theta> = 2" "length \<omega> = 2" by simp_all
  from short e long gap r(1) len r(4,5) s w show ?thesis by auto
qed

subsection \<open>The step size\<close>

text \<open>
  Claim C10. On every grid of at least two points, uniform or not, \<open>euler\<close> raises nothing
  and every step uses the first gap \<open>t[1] - t[0]\<close> as its step size; the grid enters in
  no other way than through its length, its first gap and the driving terms
  \<open>FD\<cdot>sin(\<Omega>D\<cdot>t[n])\<close>: two grids that agree on these give the same result.
\<close>

theorem euler_first_gap_only:
  assumes "2 \<le> length t" and "l \<noteq> 0"
  shows "(\<exists>\<theta> \<omega>. euler t FD l \<theta>0 \<omega>0 \<gamma> \<Omega>D = Inr (\<theta>, \<omega>) \<and>
      length \<theta> = length t \<and> length \<omega> = length t \<and>
      (\<forall>n. n + 1 < length t \<longrightarrow>
         \<omega> ! (n + 1) = \<omega> ! n + (t ! 1 - t ! 0) * (- (g / l) * sin (\<theta> ! n) - \<gamma> * \<omega> ! n + FD * sin (\<Omega>D * t ! n)) \<and>
         \<theta> ! (n + 1) = wrap (\<theta> ! n + (t ! 1 - t ! 0) * \<omega> ! (n + 1)))) \<and>
    (\<forall>t'. length t' = length t \<and> t' ! 1 - t' ! 0 = t ! 1 - t ! 0 \<and>
          (\<forall>n. n + 1 < length t \<longrightarrow> FD * sin (\<Omega>D * t' ! n) = FD * sin (\<Omega>D * t ! n)) \<longrightarrow>
          euler t' FD l \<theta>0 \<omega>0 \<gamma> \<Omega>D = euler t FD l \<theta>0 \<omega>0 \<gamma> \<Omega>D)"
proof (rule conjI)
  from euler_run[OF assms, of FD \<theta>0 \<omega>0 \<gamma> \<Omega>D]
  obtain \<theta> \<omega> where r: "euler t FD l \<theta>0 \<omega>0 \<gamma> \<Omega>D = Inr (\<theta>, \<omega>)"
    "length \<theta> = length t" "length \<omega> = length t"
    "\<forall>n<length t - 1. step_ok t FD l \<gamma> \<Omega>D (t ! 1 - t ! 0) \<theta> \<omega> n"
    by blast
  have "\<forall>n. n + 1 < length t \<longrightarrow>
         \<omega> ! (n + 1) = \<omega> ! n + (t ! 1 - t ! 0) * (- (g / l) * sin (\<theta> ! n) - \<gamma> * \<omega> ! n + FD * sin (\<Omega>D * t ! n)) \<and>
         \<theta> ! (n + 1) = wrap (\<theta> ! n + (t ! 1 - t ! 0) * \<omega> ! (n + 1))"
    using r(4) by (simp add: step_ok_def less_diff_conv)
  with r(1-3) show "\<exists>\<theta> \<omega>. euler t FD l \<theta>0 \<omega>0 \<gamma> \<Omega>D = Inr (\<theta>, \<omega>) \<and>
      length \<theta> = length t \<and> length \<omega> = length t \<and>
      (\<forall>n. n + 1 < length t \<longrightarrow>
         \<omega> ! (n + 1) = \<omega> ! n + (t ! 1 - t ! 0) * (- (g / l) * sin (\<theta> ! n) - \<gamma> * \<omega> ! n + FD * sin (\<Omega>D * t ! n)) \<and>
         \<theta> ! (n + 1) = wrap (\<theta> ! n + (t ! 1 - t ! 0) * \<omega> ! (n + 1)))"
    by blast
next
  show "\<forall>t'. length t' = length t \<and> t' ! 1 - t' ! 0 = t ! 1 - t ! 0 \<and>
          (\<forall>n. n + 1 < length t \<longrightarrow> FD * sin (\<Omega>D * t' ! n) = FD * sin (\<Omega>D * t ! n)) \<longrightarrow>
          euler t' FD l \<theta>0 \<omega>0 \<gamma> \<Omega>D = euler t FD l \<theta>0 \<omega>0 \<gamma> \<Omega>D"
    using euler_grid_cong by blast
qed

theorem euler_first_gap_only_witness:
  "2 \<le> length [0, 1, 3 :: real] \<and> (1 :: real) \<noteq> 0 \<and>
   [0, 1, 3 :: real] ! 2 - [0, 1, 3] ! 1 \<noteq> [0, 1, 3] ! 1 - [0, 1, 3] ! 0 \<and>
   (\<exists>\<theta> \<omega>. euler [0, 1, 3] 0 1 0 1 0 0 = Inr (\<theta>, \<omega>) \<and> length \<theta> = 3 \<and> length \<omega> = 3 \<and>
      \<omega> ! 2 = \<omega> ! 1 + 1 * (- (g / 1) * sin (\<theta> ! 1) - 0 * \<omega> ! 1 + 0 * sin (0 * 1)) \<and>
      \<theta> ! 2 = wrap (\<theta> ! 1 + 1 * \<omega> ! 2)) \<and>
   euler [5, 6, 10] 0 1 0 1 0 0 = euler [0, 1, 3] 0 1 0 1 0 0"
proof -
  have l: "2 \<le> length [0, 1, 3 :: real]" by simp
  have n: "(1 :: real) \<noteq> 0" by simp
  have u: "[0, 1, 3 :: real] ! 2 - [0, 1, 3] ! 1 \<noteq> [0, 1, 3] ! 1 - [0, 1, 3] ! 0" by simp
  note t = euler_first_gap_only[OF l n, of 0 0 1 0 0]
  from t[THEN conjunct1] obtain \<theta> \<omega> where r: "euler [0, 1, 3] 0 1 0 1 0 0 = Inr (\<theta>, \<omega>)"
    "length \<theta> = length [0, 1, 3 :: real]" "length \<omega> = length [0, 1, 3 :: real]"
    "\<forall>n. n + 1 < length [0, 1, 3 :: real] \<longrightarrow>
         \<omega> ! (n + 1) = \<omega> ! n + ([0, 1, 3] ! 1 - [0, 1, 3] ! 0) * (- (g / 1) * sin (\<theta> ! n) - 0 * \<omega> ! n + 0 * sin (0 * [0, 1, 3] ! n)) \<and>
         \<theta> ! (n + 1) = wrap (\<theta> ! n + ([0, 1, 3] ! 1 - [0, 1, 3] ! 0) * \<omega> ! (n + 1))"
    by blast
  from r(2,3) have len: "length \<theta> = 3" "length \<omega> = 3" by simp_all
  from r(4)[rule_format, of 1] have s: "\<omega> ! 2 = \<omega> ! 1 + 1 * (- (g / 1) * sin (\<theta> ! 1) - 0 * \<omega> ! 1 + 0 * sin (0 * 1)) \<and>
      \<theta> ! 2 = wrap (\<theta> ! 1 + 1 * \<omega> ! 2)"
    by (simp add: numeral_2_eq_2)
  have "length [5, 6, 10 :: real] = length [0, 1, 3 :: real] \<and>
      [5, 6, 10 :: real] ! 1 - [5, 6, 10] ! 0 = [0, 1, 3] ! 1 - [0, 1, 3] ! 0 \<and>
      (\<forall>n. n + 1 < length [0, 1, 3 :: real] \<longrightarrow> 0 * sin (0 * [5, 6, 10 :: real] ! n) = 0 * sin (0 * [0, 1, 3 :: real] ! n))"
    by simp
  with t[THEN conjunct2, rule_format, of "[5, 6, 10]"]
  have e: "euler [5, 6, 10] 0 1 0 1 0 0 = euler [0, 1, 3] 0 1 0 1 0 0" by blast
  from l n u r(1) len s e show ?thesis by blast
qed

section \<open>Properties of the stroboscopic indices\<close>

lemma inPhase_loop_step:
  assumes "2 \<le> length t" "t ! 1 * \<Omega>D \<noteq> 0" "strobe_m t \<Omega>D n < int (length t)"
  shows "inPhase_loop (Suc fuel) t \<Omega>D n acc =
     inPhase_loop fuel t \<Omega>D (Suc n) (if 1 < strobe_m t \<Omega>D n then acc @ [strobe_m t \<Omega>D n] else acc)"
  using assms by (simp add: Let_def)

lemma inPhase_loop_stop:
  assumes "2 \<le> length t" "t ! 1 * \<Omega>D \<noteq> 0" "int (length t) \<le> strobe_m t \<Omega>D n"
  shows "inPhase_loop (Suc fuel) t \<Omega>D n acc = Some (Inr acc)"
  using assms by (simp add: Let_def)

lemma inPhase_loop_run:
  assumes "2 \<le> length t" "t ! 1 * \<Omega>D \<noteq> 0"
  shows "(\<forall>j<k. strobe_m t \<Omega>D (n + j) < int (length t)) \<Longrightarrow>
     int (length t) \<le> strobe_m t \<Omega>D (n + k) \<Longrightarrow>
     inPhase_loop (Suc k + extra) t \<Omega>D n acc =
       Some (Inr (acc @ filter (\<lambda>m. 1 < m) (map (strobe_m t \<Omega>D) [n..<n + k])))"
proof (induction k arbitrary: n acc)
  case 0
  then show ?case using assms by (simp add: inPhase_loop_stop)
next
  case (Suc k)
  have here: "strobe_m t \<Omega>D n < int (length t)"
    using Suc.prems(1)[rule_format, of 0] by simp
  have later: "\<forall>j<k. strobe_m t \<Omega>D (Suc n + j) < int (length t)"
  proof (intro allI impI)
    fix j assume "j < k"
    then show "strobe_m t \<Omega>D (Suc n + j) < int (length t)"
      using Suc.prems(1)[rule_format, of "Suc j"] by simp
  qed
  have stop: "int (length t) \<le> strobe_m t \<Omega>D (Suc n + k)"
    using Suc.prems(2) by simp
  have split: "[n..<n + Suc k] = n # [Suc n..<Suc n + k]"
    by (simp add: upt_conv_Cons)
  have "inPhase_loop (Suc (Suc k) + extra) t \<Omega>D n acc =
        inPhase_loop (Suc k + extra) t \<Omega>D (Suc n)
          (if 1 < strobe_m t \<Omega>D n then acc @ [strobe_m t \<Omega>D n] else acc)"
    using inPhase_loop_step[OF assms here, of "Suc k + extra" acc] by simp
  also have "\<dots> = Some (Inr ((if 1 < strobe_m t \<Omega>D n then acc @ [strobe_m t \<Omega>D n] else acc) @
        filter (\<lambda>m. 1 < m) (map (strobe_m t \<Omega>D) [Suc n..<Suc n + k])))"
    by (rule Suc.IH[OF later stop])
  also have "\<dots> = Some (Inr (acc @ filter (\<lambda>m. 1 < m) (map (strobe_m t \<Omega>D) [n..<n + Suc k])))"
    unfolding split by simp
  finally show ?case .
qed

lemma inPhase_loop_diverges:
  assumes "2 \<le> length t" "t ! 1 * \<Omega>D \<noteq> 0"
    and "\<forall>j. strobe_m t \<Omega>D j \<le> 1"
  shows "inPhase_loop fuel t \<Omega>D n acc = None"
proof (induction fuel arbitrary: n acc)
  case 0
  then show ?case by simp
next
  case (Suc fuel)
  have "strobe_m t \<Omega>D n \<le> 1" using assms(3) by blast
  then have "\<not> 1 < strobe_m t \<Omega>D n" "\<not> int (length t) \<le> strobe_m t \<Omega>D n"
    using assms(1) by simp_all
  then show ?case using assms(1,2) Suc.IH by (simp add: Let_def)
qed

lemma inPhase_loop_Inr:
  "inPhase_loop fuel t \<Omega>D n acc = Some (Inr ms) \<Longrightarrow>
     \<exists>k. (\<forall>j<k. strobe_m t \<Omega>D (n + j) < int (length t)) \<and>
         int (length t) \<le> strobe_m t \<Omega>D (n + k) \<and>
         ms = acc @ filter (\<lambda>m. 1 < m) (map (strobe_m t \<Omega>D) [n..<n + k]) \<and>
         2 \<le> length t \<and> t ! 1 * \<Omega>D \<noteq> 0"
proof (induction fuel arbitrary: n acc)
  case 0
  then show ?case by simp
next
  case (Suc fuel)
  from Suc.prems have ok: "2 \<le> length t" "t ! 1 * \<Omega>D \<noteq> 0"
    by (auto split: if_splits)
  show ?case
  proof (cases "int (length t) \<le> strobe_m t \<Omega>D n")
    case True
    then have "ms = acc" using Suc.prems ok by (simp add: Let_def)
    with True ok show ?thesis by (intro exI[of _ 0]) simp
  next
    case False
    then have here: "strobe_m t \<Omega>D n < int (length t)" by simp
    define acc' where "acc' = (if 1 < strobe_m t \<Omega>D n then acc @ [strobe_m t \<Omega>D n] else acc)"
    have "inPhase_loop fuel t \<Omega>D (Suc n) acc' = Some (Inr ms)"
      using Suc.prems ok here by (simp add: Let_def acc'_def split: if_splits)
    from Suc.IH[OF this] obtain k where
      k: "\<forall>j<k. strobe_m t \<Omega>D (Suc n + j) < int (length t)"
         "int (length t) \<le> strobe_m t \<Omega>D (Suc n + k)"
         "ms = acc' @ filter (\<lambda>m. 1 < m) (map (strobe_m t \<Omega>D) [Suc n..<Suc n + k])"
      by blast
    have a: "\<forall>j<Suc k. strobe_m t \<Omega>D (n + j) < int (length t)"
    proof (intro allI impI)
      fix j assume "j < Suc k"
      then show "strobe_m t \<Omega>D (n + j) < int (length t)"
        using here k(1)[rule_format, of "j - 1"] by (cases j) simp_all
    qed
    have b: "int (length t) \<le> strobe_m t \<Omega>D (n + Suc k)" using k(2) by simp
    have split: "[n..<n + Suc k] = n # [Suc n..<Suc n + k]"
      by (simp add: upt_conv_Cons)
    have c: "ms = acc @ filter (\<lambda>m. 1 < m) (map (strobe_m t \<Omega>D) [n..<n + Suc k])"
      unfolding split using k(3) by (simp add: acc'_def)
    from a b c ok show ?thesis by blast
  qed
qed

lemma strobe_m_floor:
  assumes "0 < t ! 1 * \<Omega>D"
  shows "strobe_m t \<Omega>D n = \<lfloor>2 * pi * real n / (t ! 1 * \<Omega>D) + 1 / 2\<rfloor>"
proof -
  have "0 \<le> 2 * pi * real n / (t ! 1 * \<Omega>D)"
    using assms by (intro divide_nonneg_pos mult_nonneg_nonneg) simp_all
  then show ?thesis by (simp add: strobe_m_def py_int_def)
qed

lemma strobe_m_mono:
  assumes "0 < t ! 1 * \<Omega>D" "n \<le> n'"
  shows "strobe_m t \<Omega>D n \<le> strobe_m t \<Omega>D n'"
proof -
  have "2 * pi * real n \<le> 2 * pi * real n'"
    using assms(2) by (intro mult_left_mono) simp_all
  then have "2 * pi * real n / (t ! 1 * \<Omega>D) \<le> 2 * pi * real n' / (t ! 1 * \<Omega>D)"
    using assms(1) by (intro divide_right_mono) simp_all
  then show ?thesis
    unfolding strobe_m_floor[OF assms(1)] by (intro floor_mono) simp
qed

lemma strobe_m_strict:
  assumes "0 < t ! 1 * \<Omega>D" "t ! 1 * \<Omega>D \<le> 2 * pi"
  shows "strobe_m t \<Omega>D n < strobe_m t \<Omega>D (Suc n)"
proof -
  define c where "c = 2 * pi / (t ! 1 * \<Omega>D)"
  have c1: "1 \<le> c" using assms by (simp add: c_def)
  have x: "2 * pi * real k / (t ! 1 * \<Omega>D) = c * real k" for k
    by (simp add: c_def)
  have "\<lfloor>c * real n + 1 / 2\<rfloor> + 1 = \<lfloor>c * real n + 1 / 2 + 1\<rfloor>"
    using floor_add_int[of "c * real n + 1 / 2" 1] by simp
  also have "\<dots> \<le> \<lfloor>c * real (Suc n) + 1 / 2\<rfloor>"
    using c1 by (intro floor_mono) (simp add: algebra_simps)
  finally show ?thesis
    unfolding strobe_m_floor[OF assms(1)] x by simp
qed

lemma strobe_m_strict_mono:
  assumes "0 < t ! 1 * \<Omega>D" "t ! 1 * \<Omega>D \<le> 2 * pi" "n < n'"
  shows "strobe_m t \<Omega>D n < strobe_m t \<Omega>D n'"
proof -
  have "strobe_m t \<Omega>D n < strobe_m t \<Omega>D (Suc n)"
    by (rule strobe_m_strict[OF assms(1,2)])
  also have "\<dots> \<le> strobe_m t \<Omega>D n'"
    using assms(3) by (intro strobe_m_mono[OF assms(1)]) simp
  finally show ?thesis .
qed

lemma strobe_m_reaches:
  assumes "0 < t ! 1 * \<Omega>D"
  shows "\<exists>n. L \<le> strobe_m t \<Omega>D n"
proof -
  define c where "c = 2 * pi / (t ! 1 * \<Omega>D)"
  have c0: "0 < c" using assms by (simp add: c_def)
  have x: "2 * pi * real k / (t ! 1 * \<Omega>D) = c * real k" for k
    by (simp add: c_def)
  from ex_less_of_nat_mult[OF c0, of "of_int L"] obtain n where "of_int L < real n * c"
    by blast
  then have "of_int L \<le> c * real n + 1 / 2" by (simp add: mult.commute)
  then have "L \<le> \<lfloor>c * real n + 1 / 2\<rfloor>" by (simp add: le_floor_iff)
  then show ?thesis
    unfolding strobe_m_floor[OF assms] x by blast
qed

lemma strobe_m_near:
  assumes "0 < t ! 1 * \<Omega>D"
  shows "\<bar>of_int (strobe_m t \<Omega>D n) - 2 * pi * real n / (t ! 1 * \<Omega>D)\<bar> \<le> 1 / 2"
proof -
  define x where "x = 2 * pi * real n / (t ! 1 * \<Omega>D)"
  have "of_int \<lfloor>x + 1 / 2\<rfloor> \<le> x + 1 / 2" by (rule of_int_floor_le)
  moreover have "x + 1 / 2 < of_int \<lfloor>x + 1 / 2\<rfloor> + 1" by (rule real_of_int_floor_add_one_gt)
  ultimately have "\<bar>of_int \<lfloor>x + 1 / 2\<rfloor> - x\<bar> \<le> 1 / 2" by linarith
  then show ?thesis
    unfolding strobe_m_floor[OF assms] x_def .
qed

lemma inPhase_exit:
  assumes "2 \<le> length t" "0 < t ! 1 * \<Omega>D"
  shows "\<exists>K. (\<forall>j<K. strobe_m t \<Omega>D j < int (length t)) \<and> int (length t) \<le> strobe_m t \<Omega>D K \<and>
     (\<forall>fuel>K. inPhase fuel t \<Omega>D = Some (Inr (filter (\<lambda>m. 1 < m) (map (strobe_m t \<Omega>D) [0..<K]))))"
proof -
  define K where "K = (LEAST n. int (length t) \<le> strobe_m t \<Omega>D n)"
  from strobe_m_reaches[OF assms(2), of "int (length t)"]
  have ex: "\<exists>n. int (length t) \<le> strobe_m t \<Omega>D n" .
  then have stop: "int (length t) \<le> strobe_m t \<Omega>D K"
    unfolding K_def by (rule LeastI_ex)
  have before: "\<forall>j<K. strobe_m t \<Omega>D j < int (length t)"
    unfolding K_def using not_less_Least by (auto simp: not_le[symmetric])
  have nz: "t ! 1 * \<Omega>D \<noteq> 0" using assms(2) by (rule less_imp_neq[THEN not_sym])
  have "inPhase fuel t \<Omega>D = Some (Inr (filter (\<lambda>m. 1 < m) (map (strobe_m t \<Omega>D) [0..<K])))"
    if "K < fuel" for fuel
  proof -
    from that obtain extra where f: "fuel = Suc K + extra"
      by (metis add_Suc less_iff_Suc_add)
    show ?thesis
      unfolding inPhase_def f
      using inPhase_loop_run[OF assms(1) nz, of K 0 extra "[]"] before stop by simp
  qed
  with before stop show ?thesis by blast
qed

lemma strobe_m_2pi: "strobe_m t (2 * pi) n = py_int (real n / t ! 1 + 1 / 2)"
  by (simp add: strobe_m_def)

lemma py_int_le_1: "x \<le> 1 \<Longrightarrow> py_int x \<le> 1"
  by (simp add: py_int_def floor_le_iff ceiling_le_iff)

lemma inPhase_negative_product:
  assumes "2 \<le> length t" "t ! 1 * \<Omega>D < 0"
  shows "inPhase fuel t \<Omega>D = None"
proof -
  have "strobe_m t \<Omega>D j \<le> 1" for j
  proof -
    have "2 * pi * real j / (t ! 1 * \<Omega>D) \<le> 0"
      using assms(2) by (intro divide_nonneg_neg mult_nonneg_nonneg) simp_all
    then show ?thesis
      unfolding strobe_m_def by (intro py_int_le_1) simp
  qed
  moreover have "t ! 1 * \<Omega>D \<noteq> 0" using assms(2) by (rule less_imp_neq)
  ultimately show ?thesis
    unfolding inPhase_def using assms(1) by (intro inPhase_loop_diverges) simp_all
qed

lemma inPhase_loop_inside:
  assumes "2 \<le> length t" "t ! 1 * \<Omega>D \<noteq> 0"
  shows "(\<forall>j<k. strobe_m t \<Omega>D (n + j) < int (length t)) \<Longrightarrow> inPhase_loop k t \<Omega>D n acc = None"
proof (induction k arbitrary: n acc)
  case 0
  then show ?case by simp
next
  case (Suc k)
  have here: "strobe_m t \<Omega>D n < int (length t)"
    using Suc.prems[rule_format, of 0] by simp
  have later: "\<forall>j<k. strobe_m t \<Omega>D (Suc n + j) < int (length t)"
  proof (intro allI impI)
    fix j assume "j < k"
    then show "strobe_m t \<Omega>D (Suc n + j) < int (length t)"
      using Suc.prems[rule_format, of "Suc j"] by simp
  qed
  show ?case
    unfolding inPhase_loop_step[OF assms here] by (rule Suc.IH[OF later])
qed

lemma strobe_m_half_grid:
  assumes "t ! 1 = 1 / 2"
  shows "strobe_m t (2 * pi) n = 2 * int n"
proof -
  have fl: "\<lfloor>2 * real n + 1 / 2\<rfloor> = 2 * int n" by (rule floor_unique) simp_all
  have "strobe_m t (2 * pi) n = py_int (real n / (1 / 2) + 1 / 2)"
    unfolding strobe_m_2pi assms ..
  also have "\<dots> = py_int (2 * real n + 1 / 2)" by (simp add: mult.commute)
  also have "\<dots> = \<lfloor>2 * real n + 1 / 2\<rfloor>" by (simp add: py_int_def)
  finally show ?thesis using fl by simp
qed

lemma spec_strobe_m_unit_grid:
  assumes "2 \<le> length t" "t ! 0 = 0" "t ! 1 = 1"
  shows "spec_strobe_m t (2 * pi) n = int n"
proof -
  have "\<lfloor>real n + 1 / 2\<rfloor> = int n" by (rule floor_unique) simp_all
  then show ?thesis using assms by (simp add: spec_strobe_m_def)
qed

lemma strobe_m_sorted:
  assumes "0 < t ! 1 * \<Omega>D"
  shows "sorted (filter (\<lambda>m. 1 < m) (map (strobe_m t \<Omega>D) [0..<K]))"
proof -
  have "sorted_wrt (\<lambda>a b. strobe_m t \<Omega>D a \<le> strobe_m t \<Omega>D b) [0..<K]"
    by (rule sorted_wrt_mono_rel[OF _ sorted_wrt_upt]) (simp add: strobe_m_mono[OF assms])
  then have "sorted (map (strobe_m t \<Omega>D) [0..<K])"
    by (simp add: sorted_wrt_map)
  then show ?thesis by (rule sorted_wrt_filter)
qed

lemma strobe_m_strict_sorted:
  assumes "0 < t ! 1 * \<Omega>D" "t ! 1 * \<Omega>D \<le> 2 * pi"
  shows "sorted_wrt (<) (filter (\<lambda>m. 1 < m) (map (strobe_m t \<Omega>D) [0..<K]))"
proof -
  have "sorted_wrt (\<lambda>a b. strobe_m t \<Omega>D a < strobe_m t \<Omega>D b) [0..<K]"
    by (rule sorted_wrt_mono_rel[OF _ sorted_wrt_upt]) (simp add: strobe_m_strict_mono[OF assms])
  then have "sorted_wrt (<) (map (strobe_m t \<Omega>D) [0..<K])"
    by (simp add: sorted_wrt_map)
  then show ?thesis by (rule sorted_wrt_filter)
qed

lemma strobe_m_time:
  assumes "0 < \<Delta>" "0 < \<Omega>D" "t ! 1 = \<Delta>" "0 \<le> strobe_m t \<Omega>D n"
    and "t ! nat (strobe_m t \<Omega>D n) = real (nat (strobe_m t \<Omega>D n)) * \<Delta>"
  shows "\<bar>t ! nat (strobe_m t \<Omega>D n) - 2 * pi * real n / \<Omega>D\<bar> \<le> \<Delta> / 2"
proof -
  define m where "m = strobe_m t \<Omega>D n"
  define x where "x = 2 * pi * real n / (\<Delta> * \<Omega>D)"
  have pos: "0 < t ! 1 * \<Omega>D" using assms(1,2,3) by simp
  have near: "\<bar>of_int m - x\<bar> \<le> 1 / 2"
    using strobe_m_near[OF pos, of n, unfolded assms(3)] unfolding m_def x_def .
  have "real (nat m) = of_int m" using assms(4) by (simp add: m_def)
  then have "t ! nat m = of_int m * \<Delta>" using assms(5) by (simp add: m_def)
  moreover have "2 * pi * real n / \<Omega>D = x * \<Delta>"
    using assms(1,2) by (simp add: x_def)
  ultimately have "\<bar>t ! nat m - 2 * pi * real n / \<Omega>D\<bar> = \<bar>of_int m - x\<bar> * \<Delta>"
    using assms(1) by (simp add: left_diff_distrib[symmetric] abs_mult)
  also have "\<dots> \<le> 1 / 2 * \<Delta>"
    using near assms(1) by (intro mult_right_mono) simp_all
  finally show ?thesis by (simp add: m_def)
qed

subsection \<open>The divisor\<close>

text \<open>
  Claim C3 gives the index as \<open>floor(2\<pi>n/(\<Delta>t\<^sub>1\<cdot>\<Omega>D) + 0.5)\<close> with the spacing
  \<open>\<Delta>t\<^sub>1 = t[1] - t[0]\<close> and not the raw value \<open>t[1]\<close>, so that a grid which does not start
  at \<open>0\<close> gives the same indices. The loop divides by \<open>t[1]\<close> itself. On the grid
  \<open>[1, 2, 3, 4]\<close> (spacing \<open>1\<close>) with \<open>\<Omega>D = 2\<pi>\<close> it returns \<open>[2, 2, 3, 3]\<close>, where the indices of
  the claim are \<open>0, 1, 2, 3, 4\<close> for \<open>n = 0, \<dots>, 4\<close>, that is the list \<open>[2, 3]\<close>.
\<close>

theorem inPhase_offset_grid:
  "inPhase 8 [1, 2, 3, 4] (2 * pi) = Some (Inr [2, 2, 3, 3]) \<and>
   [1, 2, 3, 4 :: real] ! 1 - [1, 2, 3, 4] ! 0 = 1 \<and>
   map (spec_strobe_m [1, 2, 3, 4] (2 * pi)) [0, 1, 2, 3, 4] = [0, 1, 2, 3, 4]"
  by (simp add: inPhase_def eval_nat_numeral strobe_m_2pi py_int_def Let_def spec_strobe_m_def)

text \<open>
  Claim C3, amended. The grid of the notebook is built from \<open>0\<close>, where \<open>t[1]\<close> is the
  spacing. On every grid of at least two points that starts at \<open>0\<close> with a positive spacing,
  and for every \<open>\<Omega>D > 0\<close>, there is a first \<open>n = K\<close> whose index
  \<open>floor(2\<pi>n/(\<Delta>t\<^sub>1\<cdot>\<Omega>D) + 0.5)\<close> reaches the length of the grid, and the loop returns exactly
  the indices \<open>m\<close> with \<open>1 < m < len(t)\<close> of \<open>n = 0, \<dots>, K - 1\<close>, in that order.
\<close>

theorem inPhase_from_zero:
  assumes "2 \<le> length t" and "t ! 0 = 0" and "0 < t ! 1 - t ! 0" and "0 < \<Omega>D"
  shows "\<exists>K. (\<forall>j<K. spec_strobe_m t \<Omega>D j < int (length t)) \<and>
     int (length t) \<le> spec_strobe_m t \<Omega>D K \<and>
     (\<forall>fuel>K. inPhase fuel t \<Omega>D =
        Some (Inr (filter (\<lambda>m. 1 < m \<and> m < int (length t)) (map (spec_strobe_m t \<Omega>D) [0..<K]))))"
proof -
  have pos: "0 < t ! 1 * \<Omega>D" using assms(2,3,4) by simp
  have same: "strobe_m t \<Omega>D = spec_strobe_m t \<Omega>D"
    by (rule ext) (simp add: strobe_m_floor[OF pos] spec_strobe_m_def assms(2))
  from inPhase_exit[OF assms(1) pos] obtain K where
    K: "\<forall>j<K. spec_strobe_m t \<Omega>D j < int (length t)"
       "int (length t) \<le> spec_strobe_m t \<Omega>D K"
       "\<forall>fuel>K. inPhase fuel t \<Omega>D =
          Some (Inr (filter (\<lambda>m. 1 < m) (map (spec_strobe_m t \<Omega>D) [0..<K])))"
    unfolding same by blast
  have "filter (\<lambda>m. 1 < m) (map (spec_strobe_m t \<Omega>D) [0..<K]) =
        filter (\<lambda>m. 1 < m \<and> m < int (length t)) (map (spec_strobe_m t \<Omega>D) [0..<K])"
    using K(1) by (intro filter_cong) auto
  with K show ?thesis by auto
qed

theorem inPhase_from_zero_witness:
  "2 \<le> length [0, 1, 2, 3, 4 :: real] \<and> [0, 1, 2, 3, 4 :: real] ! 0 = 0 \<and>
   0 < [0, 1, 2, 3, 4 :: real] ! 1 - [0, 1, 2, 3, 4] ! 0 \<and> (0 :: real) < 2 * pi \<and>
   inPhase 6 [0, 1, 2, 3, 4] (2 * pi) = Some (Inr [2, 3, 4])"
proof -
  let ?t = "[0, 1, 2, 3, 4 :: real]"
  have a: "2 \<le> length ?t" by simp
  have b: "?t ! 0 = 0" by simp
  have c: "0 < ?t ! 1 - ?t ! 0" by simp
  have d: "(0 :: real) < 2 * pi" by simp
  have m: "spec_strobe_m ?t (2 * pi) n = int n" for n
    by (rule spec_strobe_m_unit_grid) simp_all
  from inPhase_from_zero[OF a b c d] obtain K where
    K: "\<forall>j<K. spec_strobe_m ?t (2 * pi) j < int (length ?t)"
       "int (length ?t) \<le> spec_strobe_m ?t (2 * pi) K"
       "\<forall>fuel>K. inPhase fuel ?t (2 * pi) =
          Some (Inr (filter (\<lambda>m. 1 < m \<and> m < int (length ?t)) (map (spec_strobe_m ?t (2 * pi)) [0..<K])))"
    by blast
  from K(2) have "5 \<le> K" by (simp add: m)
  moreover have "K \<le> 5"
  proof (rule ccontr)
    assume "\<not> K \<le> 5"
    then have "5 < K" by simp
    with K(1) have "spec_strobe_m ?t (2 * pi) 5 < int (length ?t)" by blast
    then show False by (simp add: m)
  qed
  ultimately have k5: "K = 5" by simp
  have map5: "map (spec_strobe_m ?t (2 * pi)) [0..<5] = [0, 1, 2, 3, 4]"
    by (simp add: m upt_conv_Cons)
  from K(3) k5 have "inPhase 6 ?t (2 * pi) =
      Some (Inr (filter (\<lambda>m. 1 < m \<and> m < int (length ?t)) (map (spec_strobe_m ?t (2 * pi)) [0..<5])))"
    by simp
  then have "inPhase 6 ?t (2 * pi) = Some (Inr [2, 3, 4])"
    unfolding map5 by simp
  with a b c d show ?thesis by blast
qed

subsection \<open>A driving frequency that is not positive\<close>

text \<open>
  Claim C4 says that a driving frequency \<open>\<Omega>D \<le> 0\<close> is refused before any index is
  generated, so that the loop neither diverges nor returns. With \<open>\<Omega>D = -1\<close> on the grid
  \<open>[0, 1, 2]\<close> the loop is entered and never left.
\<close>

theorem inPhase_negative_drive_counterexample:
  "(- 1 :: real) \<le> 0 \<and> (\<forall>fuel. inPhase fuel [0, 1, 2] (- 1) = None)"
  by (simp add: inPhase_negative_product)

text \<open>
  Claim C4, amended. With \<open>\<Omega>D = 0\<close> the first pass of the loop raises while it computes
  the index; with \<open>\<Omega>D < 0\<close>, on a grid that starts at \<open>0\<close> with a positive spacing, nothing
  is raised and the loop is never left, however many passes are allowed.
\<close>

theorem inPhase_nonpositive_drive:
  "(2 \<le> length t \<and> \<Omega>D = 0 \<longrightarrow> (\<forall>fuel. inPhase (Suc fuel) t \<Omega>D = Some (Inl ValueError))) \<and>
   (2 \<le> length t \<and> t ! 0 = 0 \<and> 0 < t ! 1 - t ! 0 \<and> \<Omega>D < 0 \<longrightarrow>
      (\<forall>fuel. inPhase fuel t \<Omega>D = None))"
proof (intro conjI impI allI)
  fix fuel assume "2 \<le> length t \<and> \<Omega>D = 0"
  then show "inPhase (Suc fuel) t \<Omega>D = Some (Inl ValueError)"
    by (simp add: inPhase_def)
next
  fix fuel assume a: "2 \<le> length t \<and> t ! 0 = 0 \<and> 0 < t ! 1 - t ! 0 \<and> \<Omega>D < 0"
  then have "t ! 1 * \<Omega>D < 0" by (simp add: mult_pos_neg)
  with a show "inPhase fuel t \<Omega>D = None"
    by (simp add: inPhase_negative_product)
qed

theorem inPhase_nonpositive_drive_witness:
  "2 \<le> length [0, 1 / 2, 1 :: real] \<and> inPhase (Suc 0) [0, 1 / 2, 1] 0 = Some (Inl ValueError) \<and>
   [0, 1 / 2, 1 :: real] ! 0 = 0 \<and> 0 < [0, 1 / 2, 1 :: real] ! 1 - [0, 1 / 2, 1] ! 0 \<and> (- 2 :: real) < 0 \<and>
   (\<forall>fuel. inPhase fuel [0, 1 / 2, 1] (- 2) = None)"
  using inPhase_nonpositive_drive[of "[0, 1 / 2, 1]" 0] inPhase_nonpositive_drive[of "[0, 1 / 2, 1]" "- 2"]
  by simp

subsection \<open>Termination\<close>

text \<open>
  Claim C9 says that the loop ends on every grid with positive spacing and every
  \<open>\<Omega>D > 0\<close>. On the grid \<open>[-2, -1, 0, 1]\<close> (spacing \<open>1\<close>) the divisor \<open>t[1]\<cdot>\<Omega>D\<close> is negative,
  every index is at most \<open>0\<close>, and the loop is never left.
\<close>

theorem inPhase_negative_start:
  "[- 2, - 1, 0, 1 :: real] ! 1 - [- 2, - 1, 0, 1] ! 0 = 1 \<and> (0 :: real) < 2 * pi \<and>
   (\<forall>fuel. inPhase fuel [- 2, - 1, 0, 1] (2 * pi) = None)"
  by (simp add: inPhase_negative_product)

text \<open>
  Claim C9, amended. On every grid of at least two points that starts at \<open>0\<close> with a
  positive spacing (as the grid of the notebook does), and for every \<open>\<Omega>D > 0\<close>, the index
  grows with \<open>n\<close> and there is a first \<open>n = K\<close> whose index reaches the length of the grid:
  the loop is left in pass \<open>K + 1\<close> and in no earlier one, with a list of at most \<open>K\<close>
  indices.
\<close>

theorem inPhase_terminates:
  assumes "2 \<le> length t" and "t ! 0 = 0" and "0 < t ! 1 - t ! 0" and "0 < \<Omega>D"
  shows "(\<forall>n n'. n \<le> n' \<longrightarrow> strobe_m t \<Omega>D n \<le> strobe_m t \<Omega>D n') \<and>
     (\<exists>K ms. (\<forall>j<K. strobe_m t \<Omega>D j < int (length t)) \<and> int (length t) \<le> strobe_m t \<Omega>D K \<and>
        length ms \<le> K \<and>
        (\<forall>fuel>K. inPhase fuel t \<Omega>D = Some (Inr ms)) \<and>
        (\<forall>fuel\<le>K. inPhase fuel t \<Omega>D = None))"
proof -
  have pos: "0 < t ! 1 * \<Omega>D" using assms(2,3,4) by simp
  then have nz: "t ! 1 * \<Omega>D \<noteq> 0" by (rule less_imp_neq[THEN not_sym])
  have mono: "\<forall>n n'. n \<le> n' \<longrightarrow> strobe_m t \<Omega>D n \<le> strobe_m t \<Omega>D n'"
    using strobe_m_mono[OF pos] by blast
  from inPhase_exit[OF assms(1) pos] obtain K where
    K: "\<forall>j<K. strobe_m t \<Omega>D j < int (length t)"
       "int (length t) \<le> strobe_m t \<Omega>D K"
       "\<forall>fuel>K. inPhase fuel t \<Omega>D =
          Some (Inr (filter (\<lambda>m. 1 < m) (map (strobe_m t \<Omega>D) [0..<K])))"
    by blast
  define ms where "ms = filter (\<lambda>m. 1 < m) (map (strobe_m t \<Omega>D) [0..<K])"
  have "length ms \<le> length (map (strobe_m t \<Omega>D) [0..<K])"
    unfolding ms_def by (rule length_filter_le)
  then have len: "length ms \<le> K" by simp
  have early: "inPhase fuel t \<Omega>D = None" if "fuel \<le> K" for fuel
  proof -
    have "\<forall>j<fuel. strobe_m t \<Omega>D (0 + j) < int (length t)"
      using K(1) that by simp
    from inPhase_loop_inside[OF assms(1) nz this] show ?thesis
      by (simp add: inPhase_def)
  qed
  from K(1,2) len K(3)[folded ms_def] early mono show ?thesis by blast
qed

theorem inPhase_terminates_witness:
  "2 \<le> length [0, 1 / 2, 1, 3 / 2 :: real] \<and> [0, 1 / 2, 1, 3 / 2 :: real] ! 0 = 0 \<and>
   0 < [0, 1 / 2, 1, 3 / 2 :: real] ! 1 - [0, 1 / 2, 1, 3 / 2] ! 0 \<and> (0 :: real) < 2 * pi \<and>
   inPhase 2 [0, 1 / 2, 1, 3 / 2] (2 * pi) = None \<and>
   inPhase 3 [0, 1 / 2, 1, 3 / 2] (2 * pi) = Some (Inr [2]) \<and>
   inPhase 4 [0, 1 / 2, 1, 3 / 2] (2 * pi) = Some (Inr [2])"
proof -
  let ?t = "[0, 1 / 2, 1, 3 / 2 :: real]"
  have a: "2 \<le> length ?t" by simp
  have b: "?t ! 0 = 0" by simp
  have c: "0 < ?t ! 1 - ?t ! 0" by simp
  have d: "(0 :: real) < 2 * pi" by simp
  have m: "strobe_m ?t (2 * pi) n = 2 * int n" for n
    by (rule strobe_m_half_grid) simp
  from inPhase_terminates[OF a b c d] obtain K ms where
    K: "\<forall>j<K. strobe_m ?t (2 * pi) j < int (length ?t)"
       "int (length ?t) \<le> strobe_m ?t (2 * pi) K"
       "\<forall>fuel>K. inPhase fuel ?t (2 * pi) = Some (Inr ms)"
       "\<forall>fuel\<le>K. inPhase fuel ?t (2 * pi) = None"
    by blast
  from K(2) have "2 \<le> K" by (simp add: m)
  moreover have "K \<le> 2"
  proof (rule ccontr)
    assume "\<not> K \<le> 2"
    then have "2 < K" by simp
    with K(1) have "strobe_m ?t (2 * pi) 2 < int (length ?t)" by blast
    then show False by (simp add: m)
  qed
  ultimately have k2: "K = 2" by simp
  from K(4) k2 have none: "inPhase 2 ?t (2 * pi) = None" by simp
  have run: "inPhase 3 ?t (2 * pi) = Some (Inr [2])"
    by (simp add: inPhase_def eval_nat_numeral strobe_m_2pi py_int_def Let_def)
  from K(3) k2 have "inPhase 3 ?t (2 * pi) = Some (Inr ms)" "inPhase 4 ?t (2 * pi) = Some (Inr ms)"
    by simp_all
  with run have "inPhase 4 ?t (2 * pi) = Some (Inr [2])" by simp
  with a b c d none run show ?thesis by blast
qed

subsection \<open>Closeness to the phase and order\<close>

text \<open>
  Claim C5 says that every returned index \<open>m\<close> has \<open>|t[m] - 2\<pi>n/\<Omega>D| < \<Delta>t/2\<close> strictly,
  and that the indices increase strictly for every \<open>\<Omega>D > 0\<close> and spacing. Rounding half up
  attains the bound: on the grid of spacing \<open>2/5\<close> from \<open>0\<close> with \<open>\<Omega>D = 2\<pi>\<close>, \<open>n = 1\<close> gives
  \<open>m = 3\<close> and \<open>|t[3] - 1| = 1/5\<close>. When the drive period is shorter than the spacing,
  successive \<open>n\<close> give the same index: spacing \<open>2\<close> with \<open>\<Omega>D = 2\<pi>\<close> returns \<open>[2, 2, 3, 3]\<close>.
\<close>

theorem inPhase_phase_counterexample:
  "inPhase 3 [0, 2 / 5, 4 / 5, 6 / 5, 8 / 5] (2 * pi) = Some (Inr [3]) \<and>
   strobe_m [0, 2 / 5, 4 / 5, 6 / 5, 8 / 5] (2 * pi) 1 = 3 \<and>
   \<not> \<bar>[0, 2 / 5, 4 / 5, 6 / 5, 8 / 5] ! 3 - 2 * pi * 1 / (2 * pi)\<bar>
       < ([0, 2 / 5, 4 / 5, 6 / 5, 8 / 5 :: real] ! 1 - [0, 2 / 5, 4 / 5, 6 / 5, 8 / 5] ! 0) / 2 \<and>
   inPhase 8 [0, 2, 4, 6] (2 * pi) = Some (Inr [2, 2, 3, 3]) \<and>
   \<not> sorted_wrt (<) [2, 2, 3, 3 :: int]"
  by (simp add: inPhase_def eval_nat_numeral strobe_m_2pi py_int_def Let_def)

text \<open>
  Claim C5, amended. On a grid \<open>t[i] = i\<cdot>\<Delta>\<close> from \<open>0\<close> with \<open>\<Delta> > 0\<close> and \<open>\<Omega>D > 0\<close>, the returned
  list is the list of the indices \<open>m(n) > 1\<close> for \<open>n = 0, \<dots>, K-1\<close>, each one inside the
  grid with \<open>|t[m(n)] - 2\<pi>n/\<Omega>D| \<le> \<Delta>/2\<close>; the list is sorted, and strictly increasing when
  \<open>\<Delta>\<cdot>\<Omega>D \<le> 2\<pi>\<close>.
\<close>

theorem inPhase_near_phase:
  assumes "inPhase fuel t \<Omega>D = Some (Inr ms)"
    and "0 < \<Delta>" and "0 < \<Omega>D"
    and "\<forall>i<length t. t ! i = real i * \<Delta>"
  shows "\<exists>K. ms = filter (\<lambda>m. 1 < m) (map (strobe_m t \<Omega>D) [0..<K]) \<and>
      (\<forall>n<K. 1 < strobe_m t \<Omega>D n \<longrightarrow>
          strobe_m t \<Omega>D n < int (length t) \<and>
          \<bar>t ! nat (strobe_m t \<Omega>D n) - 2 * pi * real n / \<Omega>D\<bar> \<le> \<Delta> / 2) \<and>
      sorted ms \<and>
      (\<Delta> * \<Omega>D \<le> 2 * pi \<longrightarrow> sorted_wrt (<) ms)"
proof -
  from inPhase_loop_Inr[OF assms(1)[unfolded inPhase_def]] obtain K where
    K: "\<forall>j<K. strobe_m t \<Omega>D j < int (length t)"
       "ms = filter (\<lambda>m. 1 < m) (map (strobe_m t \<Omega>D) [0..<K])"
       "2 \<le> length t"
    by auto
  from K(3) assms(4) have t1: "t ! 1 = \<Delta>" by simp
  have pos: "0 < t ! 1 * \<Omega>D" using assms(2,3) t1 by simp
  have near: "strobe_m t \<Omega>D n < int (length t) \<and>
          \<bar>t ! nat (strobe_m t \<Omega>D n) - 2 * pi * real n / \<Omega>D\<bar> \<le> \<Delta> / 2"
    if "n < K" "1 < strobe_m t \<Omega>D n" for n
  proof -
    from K(1) that(1) have lt: "strobe_m t \<Omega>D n < int (length t)" by blast
    with that(2) have "nat (strobe_m t \<Omega>D n) < length t" by simp
    with assms(4) have "t ! nat (strobe_m t \<Omega>D n) = real (nat (strobe_m t \<Omega>D n)) * \<Delta>"
      by blast
    from strobe_m_time[OF assms(2,3) t1 _ this] that(2) lt show ?thesis by simp
  qed
  have s: "sorted ms" unfolding K(2) by (rule strobe_m_sorted[OF pos])
  have ss: "sorted_wrt (<) ms" if "\<Delta> * \<Omega>D \<le> 2 * pi"
    unfolding K(2) using that t1 by (intro strobe_m_strict_sorted[OF pos]) simp
  from K(2) near s ss show ?thesis by blast
qed

theorem inPhase_near_phase_witness:
  "inPhase 6 [0, 1, 2, 3, 4] (2 * pi) = Some (Inr [2, 3, 4]) \<and> (0 :: real) < 1 \<and> (0 :: real) < 2 * pi \<and>
   (\<exists>K. [2, 3, 4] = filter (\<lambda>m. 1 < m) (map (strobe_m [0, 1, 2, 3, 4] (2 * pi)) [0..<K]) \<and>
      (\<forall>n<K. 1 < strobe_m [0, 1, 2, 3, 4] (2 * pi) n \<longrightarrow>
          strobe_m [0, 1, 2, 3, 4] (2 * pi) n < int (length [0, 1, 2, 3, 4 :: real]) \<and>
          \<bar>[0, 1, 2, 3, 4] ! nat (strobe_m [0, 1, 2, 3, 4] (2 * pi) n) - 2 * pi * real n / (2 * pi)\<bar> \<le> 1 / 2)) \<and>
   sorted [2, 3, 4 :: int] \<and> sorted_wrt (<) [2, 3, 4 :: int]"
proof -
  have run: "inPhase 6 [0, 1, 2, 3, 4] (2 * pi) = Some (Inr [2, 3, 4])"
    by (simp add: inPhase_def eval_nat_numeral strobe_m_2pi py_int_def Let_def)
  have a: "(0 :: real) < 1" by simp
  have b: "(0 :: real) < 2 * pi" by simp
  have c: "\<forall>i<length [0, 1, 2, 3, 4 :: real]. [0, 1, 2, 3, 4 :: real] ! i = real i * 1"
    by (simp add: less_Suc_eq eval_nat_numeral)
  have d: "(1 :: real) * (2 * pi) \<le> 2 * pi" by simp
  from inPhase_near_phase[OF run a b c] d run a b show ?thesis by blast
qed

end
